theory Spec2Isabelle
  imports Main
begin

section \<open>Strings, values and errors\<close>

text \<open>
  A Python \<^verbatim>\<open>str\<close> is a sequence of Unicode code points, and \<^verbatim>\<open>len\<close> counts code
  points. The module uses the fill character U+23AF, so a string is modelled as a list
  of code points; \<open>str\<close> turns an ASCII literal into such a list.
\<close>

type_synonym pystr = "nat list"

definition str :: "string \<Rightarrow> pystr" where
  "str cs = map of_char cs"

text \<open>The exceptions the module can raise or let through, as values.\<close>

datatype error =
    RuntimeError pystr
  | TypeError
  | KeyError pystr
  | RecursionError
  | JSONDecodeError

text \<open>
  Python values. Strings, numbers, booleans and \<^verbatim>\<open>None\<close> are immutable; a list or a
  dict is an object in the store and a value refers to it by its address.
\<close>

datatype pyval =
    PNone
  | PBool bool
  | PInt int
  | PFloat int int
  | PStr pystr
  | PRef nat

section \<open>squeeze\<close>

text \<open>
  \<^verbatim>\<open>s[:n]\<close> and \<^verbatim>\<open>s[n:]\<close> for any integer \<open>n\<close>: a negative bound counts from the
  end of the string, and every bound is clamped to the string.
\<close>

definition slice_bound :: "pystr \<Rightarrow> int \<Rightarrow> nat" where
  "slice_bound s n = nat (if n < 0 then int (length s) + n else n)"

definition slice_to :: "pystr \<Rightarrow> int \<Rightarrow> pystr" where
  "slice_to s n = take (slice_bound s n) s"

definition slice_from :: "pystr \<Rightarrow> int \<Rightarrow> pystr" where
  "slice_from s n = drop (slice_bound s n) s"

text \<open>
  \<^verbatim>\<open>
  def squeeze(s, maxlen, tail=0):
      if len(s) <= maxlen:
          return s
      return s[:(maxlen-tail-2)] + ".." + (s[-tail:] if tail else "")
  \<close>
\<close>

definition squeeze :: "pystr \<Rightarrow> int \<Rightarrow> int \<Rightarrow> pystr" where
  "squeeze s maxlen tail =
     (if int (length s) \<le> maxlen then s
      else slice_to s (maxlen - tail - 2) @ str ''..''
             @ (if tail \<noteq> 0 then slice_from s (- tail) else []))"

section \<open>override\<close>

text \<open>
  \<^verbatim>\<open>
  def override(*args):
      for x in reversed(args):
          if x is not None:
              return x
      return None
  \<close>
\<close>

fun override_loop :: "pyval list \<Rightarrow> pyval" where
  "override_loop [] = PNone"
| "override_loop (x # xs) = (if x \<noteq> PNone then x else override_loop xs)"

definition override :: "pyval list \<Rightarrow> pyval" where
  "override args = override_loop (rev args)"

section \<open>Visible length and padding\<close>

definition is_digit :: "nat \<Rightarrow> bool" where
  "is_digit c = (48 \<le> c \<and> c \<le> 57)"

text \<open>
  The pattern \<^verbatim>\<open>\033\[[0-9]+(;[0-9]+)?m\<close> at the start of a string: the number of code
  points it matches, if it matches. After \<^verbatim>\<open>ESC [\<close> the digits are taken greedily; what
  follows a digit run must be \<^verbatim>\<open>;\<close> or \<^verbatim>\<open>m\<close>, so no shorter run can match.
\<close>

definition match_color :: "pystr \<Rightarrow> nat option" where
  "match_color s =
     (case s of
        e # b # rest \<Rightarrow>
          if e = 27 \<and> b = 91 then
            (let ds = takeWhile is_digit rest; r1 = dropWhile is_digit rest in
             if ds = [] then None
             else (case r1 of
                     [] \<Rightarrow> None
                   | c # r2 \<Rightarrow>
                       if c = 59 then
                         (let ds2 = takeWhile is_digit r2; r3 = dropWhile is_digit r2 in
                          if ds2 = [] then None
                          else (case r3 of
                                  [] \<Rightarrow> None
                                | c3 # r4 \<Rightarrow>
                                    if c3 = 109
                                    then Some (2 + length ds + 1 + length ds2 + 1)
                                    else None))
                       else if c = 109 then Some (2 + length ds + 1)
                       else None))
          else None
      | _ \<Rightarrow> None)"

text \<open>
  \<^verbatim>\<open>re.sub\<close> with an empty replacement: scan from the left, drop every match, go on
  after it. The first argument counts the code points of the current match that are
  still to be dropped.
\<close>

fun sub_color :: "nat \<Rightarrow> pystr \<Rightarrow> pystr" where
  "sub_color k [] = []"
| "sub_color (Suc k) (c # cs) = sub_color k cs"
| "sub_color 0 (c # cs) =
     (case match_color (c # cs) of
        Some n \<Rightarrow> sub_color (n - 1) cs
      | None \<Rightarrow> c # sub_color 0 cs)"

text \<open>
  \<^verbatim>\<open>
  def vislen(s: str):
      return len(re.compile(r"\033\[[0-9]+(;[0-9]+)?m").sub("", s))
  \<close>
\<close>

definition vislen :: "pystr \<Rightarrow> int" where
  "vislen s = int (length (sub_color 0 s))"

text \<open>\<^verbatim>\<open>char * left\<close>: a string repeated; a count below one gives the empty string.\<close>

definition repeat :: "pystr \<Rightarrow> int \<Rightarrow> pystr" where
  "repeat s n = concat (replicate (nat n) s)"

text \<open>
  \<^verbatim>\<open>s.ljust(width, fillchar)\<close>: the fill must be one code point long, which is checked
  before anything else.
\<close>

definition ljust :: "pystr \<Rightarrow> int \<Rightarrow> pystr \<Rightarrow> error + pystr" where
  "ljust s width fillchar =
     (case fillchar of
        [c] \<Rightarrow> Inr (s @ replicate (nat (width - int (length s))) c)
      | _ \<Rightarrow> Inl TypeError)"

text \<open>
  \<^verbatim>\<open>
  def pad(text, total, left=0, char=" ", sep="", textlen=None) -> str:
      textlen = vislen(text) if textlen is None else textlen
      offset = len(text) - textlen
      return (char * left + sep + text + sep).ljust(total + offset, char)
  \<close>
  The parameter \<^verbatim>\<open>total\<close> (here \<open>total'\<close>) has no default: a call must
  supply it.
\<close>

definition pad :: "pystr \<Rightarrow> int \<Rightarrow> int \<Rightarrow> pystr \<Rightarrow> pystr \<Rightarrow> int option \<Rightarrow> error + pystr" where
  "pad text total' left char sep textlen =
     (let textlen' = (case textlen of None \<Rightarrow> vislen text | Some n \<Rightarrow> n);
          offset = int (length text) - textlen'
      in ljust (repeat char left @ sep @ text @ sep) (total' + offset) char)"

section \<open>Headers\<close>

text \<open>
  Case mapping, on ASCII letters; the model leaves every other code point as it is.
\<close>

definition is_lower :: "nat \<Rightarrow> bool" where
  "is_lower c = (97 \<le> c \<and> c \<le> 122)"

definition is_upper :: "nat \<Rightarrow> bool" where
  "is_upper c = (65 \<le> c \<and> c \<le> 90)"

definition upper_char :: "nat \<Rightarrow> nat" where
  "upper_char c = (if is_lower c then c - 32 else c)"

definition lower_char :: "nat \<Rightarrow> nat" where
  "lower_char c = (if is_upper c then c + 32 else c)"

definition upper :: "pystr \<Rightarrow> pystr" where
  "upper s = map upper_char s"

text \<open>
  \<^verbatim>\<open>str.title()\<close>: a cased character that follows a cased character is lowered, any
  other is raised.
\<close>

fun title_from :: "bool \<Rightarrow> pystr \<Rightarrow> pystr" where
  "title_from prev [] = []"
| "title_from prev (c # cs) =
     (if prev then lower_char c else upper_char c)
       # title_from (is_lower c \<or> is_upper c) cs"

definition title :: "pystr \<Rightarrow> pystr" where
  "title s = title_from False s"

text \<open>
  \<^verbatim>\<open>
  def format_header(header, level: str):
      upper = level.upper()
      if upper == "info":
          return (">>> {}".format(header.title()))
      if upper == "debug":
          return pad(color.black_on_cyan(header), char="-")
      if upper == "trace":
          return pad(header, char="\<dots>")
      raise RuntimeError("Invalid header level \"{}\"".format(level))
  \<close>
  The module \<^verbatim>\<open>color\<close> is not part of the sources, so \<^verbatim>\<open>color.black_on_cyan\<close> is
  the parameter \<open>black_on_cyan\<close>. Both calls of \<^verbatim>\<open>pad\<close> leave out the required
  argument \<^verbatim>\<open>total\<close>, which Python answers with a \<^verbatim>\<open>TypeError\<close> once the arguments
  are evaluated.
\<close>

definition format_header :: "(pystr \<Rightarrow> pystr) \<Rightarrow> pystr \<Rightarrow> pystr \<Rightarrow> error + pystr" where
  "format_header black_on_cyan header level =
     (let upper = upper level in
      if upper = str ''info'' then Inr (str ''>>> '' @ title header)
      else if upper = str ''debug'' then
        (let text = black_on_cyan header in Inl TypeError)
      else if upper = str ''trace'' then Inl TypeError
      else Inl (RuntimeError (str ''Invalid header level \"'' @ level @ str ''\"'')))"

text \<open>
  \<^verbatim>\<open>
  def make_header(header, level="debug"):
      level = str(logger.LogLevel(level))
      if level == "info":
          return (">>> {}".format(header.title()))
      if level == "debug":
          return pad(color.black_on_cyan(header), total=100, left=20, char="-")
      if level == "trace":
          return pad(header, total=100, left=20, char="\<dots>")
      return header
  \<close>
  The module \<^verbatim>\<open>logger\<close> is not part of the sources either: the parameter \<open>loglevel\<close>
  stands for \<^verbatim>\<open>str(logger.LogLevel(level))\<close>, which may raise. The fill character
  of the last call of \<^verbatim>\<open>pad\<close> is U+23AF, code point 9135.
\<close>

definition make_header ::
  "(pystr \<Rightarrow> pystr) \<Rightarrow> (pystr \<Rightarrow> error + pystr) \<Rightarrow> pystr \<Rightarrow> pystr \<Rightarrow> error + pystr" where
  "make_header black_on_cyan loglevel header level =
     (case loglevel level of
        Inl e \<Rightarrow> Inl e
      | Inr level' \<Rightarrow>
          if level' = str ''info'' then Inr (str ''>>> '' @ title header)
          else if level' = str ''debug'' then
            pad (black_on_cyan header) 100 20 (str ''-'') [] None
          else if level' = str ''trace'' then
            pad header 100 20 [9135] [] None
          else Inr header)"

section \<open>The store: lists and dicts as mutable objects\<close>

text \<open>
  \<^verbatim>\<open>trim\<close> changes its argument in place and \<^verbatim>\<open>abridge\<close> must not, so lists and dicts
  live in a store, a list of objects addressed by position. A dict is a list of
  key-value pairs in insertion order (JSON-like data: the keys are strings), a list
  is a list of values. Creating an object appends it to the store.
\<close>

datatype pyobj =
    PyDict "(pystr \<times> pyval) list"
  | PyList "pyval list"

type_synonym store = "pyobj list"

definition objat :: "store \<Rightarrow> nat \<Rightarrow> pyobj option" where
  "objat h a = (if a < length h then Some (h ! a) else None)"

text \<open>\<^verbatim>\<open>isinstance(v, dict)\<close>, \<^verbatim>\<open>isinstance(v, list)\<close>.\<close>

definition is_dict :: "store \<Rightarrow> pyval \<Rightarrow> bool" where
  "is_dict h v =
     (case v of
        PRef a \<Rightarrow> (case objat h a of Some (PyDict kvs) \<Rightarrow> True | _ \<Rightarrow> False)
      | _ \<Rightarrow> False)"

definition is_list :: "store \<Rightarrow> pyval \<Rightarrow> bool" where
  "is_list h v =
     (case v of
        PRef a \<Rightarrow> (case objat h a of Some (PyList xs) \<Rightarrow> True | _ \<Rightarrow> False)
      | _ \<Rightarrow> False)"

text \<open>The keys of a dict and the elements of a list, as a loop over them sees them.\<close>

definition keys_of :: "store \<Rightarrow> pyval \<Rightarrow> pystr list" where
  "keys_of h v =
     (case v of
        PRef a \<Rightarrow> (case objat h a of Some (PyDict kvs) \<Rightarrow> map fst kvs | _ \<Rightarrow> [])
      | _ \<Rightarrow> [])"

definition items_of :: "store \<Rightarrow> pyval \<Rightarrow> pyval list" where
  "items_of h v =
     (case v of
        PRef a \<Rightarrow> (case objat h a of Some (PyList xs) \<Rightarrow> xs | _ \<Rightarrow> [])
      | _ \<Rightarrow> [])"

text \<open>\<^verbatim>\<open>data[key]\<close> for a dict \<^verbatim>\<open>data\<close>; \<open>None\<close> where Python raises \<^verbatim>\<open>KeyError\<close>.\<close>

definition getitem :: "store \<Rightarrow> pyval \<Rightarrow> pystr \<Rightarrow> pyval option" where
  "getitem h v key =
     (case v of
        PRef a \<Rightarrow> (case objat h a of Some (PyDict kvs) \<Rightarrow> map_of kvs key | _ \<Rightarrow> None)
      | _ \<Rightarrow> None)"

text \<open>
  \<^verbatim>\<open>data[key] = v\<close> for a dict \<^verbatim>\<open>data\<close>: the value of a key the dict has is replaced
  where it stands, a new key goes to the end.
\<close>

primrec dict_set :: "(pystr \<times> pyval) list \<Rightarrow> pystr \<Rightarrow> pyval \<Rightarrow> (pystr \<times> pyval) list" where
  "dict_set [] key v = [(key, v)]"
| "dict_set (kv # kvs) key v =
     (if fst kv = key then (key, v) # kvs else kv # dict_set kvs key v)"

definition setitem :: "store \<Rightarrow> pyval \<Rightarrow> pystr \<Rightarrow> pyval \<Rightarrow> store" where
  "setitem h data key v =
     (case data of
        PRef a \<Rightarrow>
          (case objat h a of
             Some (PyDict kvs) \<Rightarrow> h[a := PyDict (dict_set kvs key v)]
           | _ \<Rightarrow> h)
      | _ \<Rightarrow> h)"

text \<open>\<^verbatim>\<open>y.append(v)\<close> for the list at address \<open>y\<close>.\<close>

definition list_append :: "store \<Rightarrow> nat \<Rightarrow> pyval \<Rightarrow> store" where
  "list_append h y v =
     (case objat h y of
        Some (PyList ys) \<Rightarrow> h[y := PyList (ys @ [v])]
      | _ \<Rightarrow> h)"

section \<open>trim\<close>

text \<open>
  \<^verbatim>\<open>
  def trim(data: typing.Union[dict, list], maxlen=79):
      if isinstance(data, dict):
          for key in data:
              if isinstance(data[key], (list, dict)):
                  trim(data[key], maxlen=maxlen)
              else:
                  if isinstance(data[key], str) and len(data[key]) > maxlen:
                      data[key] = squeeze(data[key], maxlen=maxlen, tail=3)
      elif isinstance(data, list):
          for item in data:
              if isinstance(item, (list, dict)):
                  trim(item, maxlen=maxlen)
              else:
                  if isinstance(item, str) and len(item) > maxlen:
                      item = squeeze(item, maxlen=maxlen, tail=3)
  \<close>
  The function calls itself, and Python bounds the nesting of calls: the first
  argument of \<open>trim\<close> is the number of nested calls still allowed, and a call beyond it
  raises \<^verbatim>\<open>RecursionError\<close>. The loops take the recursive call as the parameter \<open>rec\<close>.

  The loop over a dict runs over its keys; the only assignment, to a key the dict has,
  never changes them. It reads \<^verbatim>\<open>data[key]\<close> from the store as it is when the key's
  turn comes. The loop over a list binds \<^verbatim>\<open>item\<close> to each element; nothing in \<^verbatim>\<open>trim\<close>
  writes to a list, and the assignment to \<^verbatim>\<open>item\<close> rebinds the local variable only, so
  the store stays as it is.
\<close>

primrec trim_dict_loop ::
  "(pyval \<Rightarrow> store \<Rightarrow> error + store) \<Rightarrow> pyval \<Rightarrow> int \<Rightarrow> pystr list \<Rightarrow> store \<Rightarrow> error + store" where
  "trim_dict_loop rec data maxlen [] h = Inr h"
| "trim_dict_loop rec data maxlen (key # keys) h =
     (case getitem h data key of
        None \<Rightarrow> Inl (KeyError key)
      | Some v \<Rightarrow>
          (case (if is_list h v \<or> is_dict h v then rec v h
                 else (case v of
                         PStr s \<Rightarrow>
                           if maxlen < int (length s)
                           then Inr (setitem h data key (PStr (squeeze s maxlen 3)))
                           else Inr h
                       | _ \<Rightarrow> Inr h)) of
             Inl e \<Rightarrow> Inl e
           | Inr h' \<Rightarrow> trim_dict_loop rec data maxlen keys h'))"

primrec trim_list_loop ::
  "(pyval \<Rightarrow> store \<Rightarrow> error + store) \<Rightarrow> int \<Rightarrow> pyval list \<Rightarrow> store \<Rightarrow> error + store" where
  "trim_list_loop rec maxlen [] h = Inr h"
| "trim_list_loop rec maxlen (item # items) h =
     (case (if is_list h item \<or> is_dict h item then rec item h
            else (case item of
                    PStr s \<Rightarrow>
                      if maxlen < int (length s)
                      then (let item' = PStr (squeeze s maxlen 3) in Inr h)
                      else Inr h
                  | _ \<Rightarrow> Inr h)) of
        Inl e \<Rightarrow> Inl e
      | Inr h' \<Rightarrow> trim_list_loop rec maxlen items h')"

primrec trim :: "nat \<Rightarrow> pyval \<Rightarrow> int \<Rightarrow> store \<Rightarrow> error + store" where
  "trim 0 data maxlen h = Inl RecursionError"
| "trim (Suc depth) data maxlen h =
     (if is_dict h data then
        trim_dict_loop (\<lambda>v. trim depth v maxlen) data maxlen (keys_of h data) h
      else if is_list h data then
        trim_list_loop (\<lambda>v. trim depth v maxlen) maxlen (items_of h data) h
      else Inr h)"

section \<open>abridge\<close>

text \<open>
  \<^verbatim>\<open>copy.deepcopy\<close> of the standard library, for the values of this model: an immutable
  value is its own copy; a list or dict is copied into a new object, element by
  element, and \<^verbatim>\<open>memo\<close> maps the address of every object copied so far to the address
  of its copy, so that an object met again is not copied twice.
  \<^verbatim>\<open>
  def deepcopy(x, memo):
      y = memo.get(id(x))
      if y is not None: return y
      ... dispatch on type(x) ...
  def _deepcopy_list(x, memo):
      y = []
      memo[id(x)] = y
      for a in x: y.append(deepcopy(a, memo))
      return y
  def _deepcopy_dict(x, memo):
      y = {}
      memo[id(x)] = y
      for key, value in x.items(): y[deepcopy(key, memo)] = deepcopy(value, memo)
      return y
  \<close>
  The keys are strings, which are their own copies. As in \<open>trim\<close>, the first argument
  bounds the nesting of calls.
\<close>

type_synonym memo = "(nat \<times> nat) list"

primrec deepcopy_list_loop ::
  "(pyval \<Rightarrow> memo \<Rightarrow> store \<Rightarrow> error + pyval \<times> memo \<times> store) \<Rightarrow> nat \<Rightarrow> pyval list
     \<Rightarrow> memo \<Rightarrow> store \<Rightarrow> error + memo \<times> store" where
  "deepcopy_list_loop rec y [] memo h = Inr (memo, h)"
| "deepcopy_list_loop rec y (a # x) memo h =
     (case rec a memo h of
        Inl e \<Rightarrow> Inl e
      | Inr (a', memo', h') \<Rightarrow> deepcopy_list_loop rec y x memo' (list_append h' y a'))"

primrec deepcopy_dict_loop ::
  "(pyval \<Rightarrow> memo \<Rightarrow> store \<Rightarrow> error + pyval \<times> memo \<times> store) \<Rightarrow> nat \<Rightarrow> (pystr \<times> pyval) list
     \<Rightarrow> memo \<Rightarrow> store \<Rightarrow> error + memo \<times> store" where
  "deepcopy_dict_loop rec y [] memo h = Inr (memo, h)"
| "deepcopy_dict_loop rec y (kv # x) memo h =
     (case rec (snd kv) memo h of
        Inl e \<Rightarrow> Inl e
      | Inr (value', memo', h') \<Rightarrow>
          deepcopy_dict_loop rec y x memo' (setitem h' (PRef y) (fst kv) value'))"

primrec deepcopy :: "nat \<Rightarrow> pyval \<Rightarrow> memo \<Rightarrow> store \<Rightarrow> error + pyval \<times> memo \<times> store" where
  "deepcopy 0 x memo h = Inl RecursionError"
| "deepcopy (Suc depth) x memo h =
     (case x of
        PRef a \<Rightarrow>
          (case map_of memo a of
             Some y \<Rightarrow> Inr (PRef y, memo, h)
           | None \<Rightarrow>
               (case objat h a of
                  Some (PyList xs) \<Rightarrow>
                    (let y = length h in
                     case deepcopy_list_loop (deepcopy depth) y xs ((a, y) # memo) (h @ [PyList []]) of
                       Inl e \<Rightarrow> Inl e
                     | Inr (memo', h') \<Rightarrow> Inr (PRef y, memo', h'))
                | Some (PyDict kvs) \<Rightarrow>
                    (let y = length h in
                     case deepcopy_dict_loop (deepcopy depth) y kvs ((a, y) # memo) (h @ [PyDict []]) of
                       Inl e \<Rightarrow> Inl e
                     | Inr (memo', h') \<Rightarrow> Inr (PRef y, memo', h'))
                | None \<Rightarrow> Inr (x, memo, h)))
      | _ \<Rightarrow> Inr (x, memo, h))"

text \<open>
  \<^verbatim>\<open>
  def abridge(data: typing.Union[dict, list], maxlen=79):
      clone = copy.deepcopy(data)
      trim(clone, maxlen=maxlen)
      return clone
  \<close>
  The result is the clone together with the store the call leaves behind.
\<close>

definition abridge :: "nat \<Rightarrow> pyval \<Rightarrow> int \<Rightarrow> store \<Rightarrow> error + pyval \<times> store" where
  "abridge depth data maxlen h =
     (case deepcopy depth data [] h of
        Inl e \<Rightarrow> Inl e
      | Inr (clone, memo, h') \<Rightarrow>
          (case trim depth clone maxlen h' of
             Inl e \<Rightarrow> Inl e
           | Inr h'' \<Rightarrow> Inr (clone, h'')))"

section \<open>format_json and extract\<close>

text \<open>
  \<^verbatim>\<open>
  def format_json(text: str, maxlen=100) -> str:
      data = json.loads(text)
      if maxlen:
          trim(data, maxlen=100)
      return json.dumps(data, indent=4, sort_keys=False)
  \<close>
  \<^verbatim>\<open>json.loads\<close> and \<^verbatim>\<open>json.dumps\<close> belong to the standard library. What
  \<^verbatim>\<open>json.loads(text)\<close> gives is the argument \<open>parsed\<close>: an error, or the parsed value,
  whose objects are in the store \<open>h\<close>. \<^verbatim>\<open>json.dumps\<close> is the parameter \<open>dumps\<close>, which
  reads the value from the store. An integer is true when it is not 0.
\<close>

definition format_json ::
  "(store \<Rightarrow> pyval \<Rightarrow> error + pystr) \<Rightarrow> nat \<Rightarrow> error + pyval \<Rightarrow> int \<Rightarrow> store
     \<Rightarrow> error + pystr \<times> store" where
  "format_json dumps depth parsed maxlen h =
     (case parsed of
        Inl e \<Rightarrow> Inl e
      | Inr data \<Rightarrow>
          (case (if maxlen \<noteq> 0 then trim depth data 100 h else Inr h) of
             Inl e \<Rightarrow> Inl e
           | Inr h' \<Rightarrow>
               (case dumps h' data of
                  Inl e \<Rightarrow> Inl e
                | Inr out \<Rightarrow> Inr (out, h'))))"

text \<open>
  \<^verbatim>\<open>v[key]\<close> for a string \<^verbatim>\<open>key\<close>: a dict gives the value or raises \<^verbatim>\<open>KeyError\<close>; a
  list, a string, a number, a boolean or \<^verbatim>\<open>None\<close> raises \<^verbatim>\<open>TypeError\<close>.
\<close>

definition subscript :: "store \<Rightarrow> pyval \<Rightarrow> pystr \<Rightarrow> error + pyval" where
  "subscript h v key =
     (if is_dict h v then
        (case getitem h v key of
           Some x \<Rightarrow> Inr x
         | None \<Rightarrow> Inl (KeyError key))
      else Inl TypeError)"

text \<open>
  \<^verbatim>\<open>
  def extract(resp: requests.models.Response, key: str, fallback):
      try:
          return json.loads(resp.text)[key]
      except KeyError:
          return fallback
  \<close>
  As in \<open>format_json\<close>, \<open>parsed\<close> is what \<^verbatim>\<open>json.loads(resp.text)\<close> gives. The
  name \<open>extract\<close> is a keyword of Isabelle, so the function is \<open>extract_field\<close> here.
\<close>

definition extract_field :: "store \<Rightarrow> error + pyval \<Rightarrow> pystr \<Rightarrow> pyval \<Rightarrow> error + pyval" where
  "extract_field h parsed key fallback =
     (case (case parsed of Inl e \<Rightarrow> Inl e | Inr v \<Rightarrow> subscript h v key) of
        Inl (KeyError k) \<Rightarrow> Inr fallback
      | r \<Rightarrow> r)"

section \<open>Relations between stores\<close>

text \<open>
  What a call of \<open>trim\<close> with threshold \<open>maxlen\<close> may do to a value inside a dict: keep
  it, or put a string in the place of a string longer than \<open>maxlen\<close>.
\<close>

definition val_kept :: "int \<Rightarrow> pyval \<Rightarrow> pyval \<Rightarrow> bool" where
  "val_kept maxlen v v' =
     (v' = v \<or> (case v of
                  PStr s \<Rightarrow> maxlen < int (length s) \<and> (case v' of PStr s' \<Rightarrow> True | _ \<Rightarrow> False)
                | _ \<Rightarrow> False))"

text \<open>
  An object is kept when a list is the same list, and a dict has the same keys in the
  same order with every value kept.
\<close>

fun obj_kept :: "int \<Rightarrow> pyobj \<Rightarrow> pyobj \<Rightarrow> bool" where
  "obj_kept maxlen (PyList xs) (PyList ys) = (ys = xs)"
| "obj_kept maxlen (PyDict kvs) (PyDict kvs') =
     (map fst kvs' = map fst kvs \<and> list_all2 (val_kept maxlen) (map snd kvs) (map snd kvs'))"
| "obj_kept maxlen (PyList xs) (PyDict kvs') = False"
| "obj_kept maxlen (PyDict kvs) (PyList ys) = False"

text \<open>A store is kept when it has the same addresses and every object is kept.\<close>

definition store_kept :: "int \<Rightarrow> store \<Rightarrow> store \<Rightarrow> bool" where
  "store_kept maxlen h h' = list_all2 (obj_kept maxlen) h h'"

text \<open>
  The values an object holds, and the nesting of objects below a value: \<open>fits depth h v\<close>
  says that \<open>depth\<close> nested calls are enough to walk through \<open>v\<close> and everything it
  holds, so that \<open>v\<close> holds no object that holds itself.
\<close>

definition children :: "pyobj \<Rightarrow> pyval list" where
  "children ob = (case ob of PyDict kvs \<Rightarrow> map snd kvs | PyList xs \<Rightarrow> xs)"

primrec fits :: "nat \<Rightarrow> store \<Rightarrow> pyval \<Rightarrow> bool" where
  "fits 0 h v = False"
| "fits (Suc depth) h v =
     (case v of
        PRef a \<Rightarrow> (case objat h a of Some ob \<Rightarrow> list_all (fits depth h) (children ob) | None \<Rightarrow> True)
      | _ \<Rightarrow> True)"

(*THEOREMS*)
section \<open>Helper lemmas\<close>

lemma upper_no_lower: "c \<in> set (upper level) \<Longrightarrow> \<not> is_lower c"
  by (auto simp: upper_def upper_char_def is_lower_def)

lemma upper_neq_levels:
  "upper level \<noteq> str ''info''" "upper level \<noteq> str ''debug''" "upper level \<noteq> str ''trace''"
  using upper_no_lower [of 105 level] upper_no_lower [of 100 level] upper_no_lower [of 116 level]
  by (auto simp: str_def is_lower_def)

lemma override_loop_all_none: "(\<forall>x\<in>set xs. x = PNone) \<Longrightarrow> override_loop xs = PNone"
  by (induction xs) auto

lemma override_loop_skip:
  "(\<forall>y\<in>set ys. y = PNone) \<Longrightarrow> override_loop (ys @ zs) = override_loop zs"
  by (induction ys) auto

subsection \<open>What trim keeps\<close>

lemma val_kept_refl [simp]: "val_kept m v v"
  by (simp add: val_kept_def)

lemma val_kept_trans: "val_kept m u v \<Longrightarrow> val_kept m v w \<Longrightarrow> val_kept m u w"
  by (auto simp: val_kept_def split: pyval.splits)

lemma obj_kept_refl [simp]: "obj_kept m ob ob"
  by (cases ob) (simp_all add: list_all2_refl)

lemma obj_kept_trans: "obj_kept m a b \<Longrightarrow> obj_kept m b c \<Longrightarrow> obj_kept m a c"
proof (cases a; cases b; cases c)
qed (auto intro: list_all2_trans [where ?P1.0 = "val_kept m" and ?P2.0 = "val_kept m", rotated] val_kept_trans)

lemma store_kept_refl [simp]: "store_kept m h h"
  by (simp add: store_kept_def list_all2_refl)

lemma store_kept_trans: "store_kept m h1 h2 \<Longrightarrow> store_kept m h2 h3 \<Longrightarrow> store_kept m h1 h3"
  unfolding store_kept_def
  by (rule list_all2_trans [where ?P1.0 = "obj_kept m" and ?P2.0 = "obj_kept m", rotated])
     (auto intro: obj_kept_trans)

lemma store_kept_length: "store_kept m h h' \<Longrightarrow> length h' = length h"
  by (simp add: store_kept_def list_all2_lengthD)

lemma store_kept_nth: "store_kept m h h' \<Longrightarrow> a < length h \<Longrightarrow> obj_kept m (h ! a) (h' ! a)"
  by (simp add: store_kept_def list_all2_nthD)

lemma dict_set_keys: "map_of kvs key = Some v \<Longrightarrow> map fst (dict_set kvs key v') = map fst kvs"
  by (induction kvs) (auto split: if_splits)

lemma dict_set_kept:
  "map_of kvs key = Some (PStr s) \<Longrightarrow> m < int (length s) \<Longrightarrow>
   list_all2 (val_kept m) (map snd kvs) (map snd (dict_set kvs key (PStr s')))"
  by (induction kvs) (auto split: if_splits simp: list_all2_refl val_kept_def)

lemma setitem_kept:
  assumes "getitem h data key = Some (PStr s)" and "m < int (length s)"
  shows "store_kept m h (setitem h data key (PStr s'))"
proof -
  from assms(1) obtain a kvs where d: "data = PRef a" and a: "a < length h"
    and ob: "h ! a = PyDict kvs" and k: "map_of kvs key = Some (PStr s)"
    by (auto simp: getitem_def objat_def split: pyval.splits pyobj.splits if_splits option.splits)
  have "obj_kept m (h ! a) (PyDict (dict_set kvs key (PStr s')))"
    using k assms(2) by (simp add: ob dict_set_keys dict_set_kept)
  then have "list_all2 (obj_kept m) h (h[a := PyDict (dict_set kvs key (PStr s'))])"
    using a by (simp add: list_all2_conv_all_nth nth_list_update)
  then show ?thesis
    using d a ob by (simp add: store_kept_def setitem_def objat_def)
qed

lemma trim_dict_loop_kept:
  assumes rec: "\<And>v h h'. rec v h = Inr h' \<Longrightarrow> store_kept m h h'"
  shows "trim_dict_loop rec data m keys h = Inr h' \<Longrightarrow> store_kept m h h'"
proof (induction keys arbitrary: h)
  case Nil
  then show ?case by simp
next
  case (Cons key keys)
  from Cons.prems obtain v h1 where g: "getitem h data key = Some v"
    and step: "(if is_list h v \<or> is_dict h v then rec v h
                 else (case v of
                         PStr s \<Rightarrow>
                           if m < int (length s)
                           then Inr (setitem h data key (PStr (squeeze s m 3)))
                           else Inr h
                       | _ \<Rightarrow> Inr h)) = Inr h1"
    and rest: "trim_dict_loop rec data m keys h1 = Inr h'"
    by (auto split: option.splits sum.splits)
  have "store_kept m h h1"
    using step g by (auto split: if_splits pyval.splits intro: rec setitem_kept)
  moreover have "store_kept m h1 h'"
    using rest by (rule Cons.IH)
  ultimately show ?case by (rule store_kept_trans)
qed

lemma trim_list_loop_kept:
  assumes rec: "\<And>v h h'. rec v h = Inr h' \<Longrightarrow> store_kept m h h'"
  shows "trim_list_loop rec m items h = Inr h' \<Longrightarrow> store_kept m h h'"
proof (induction items arbitrary: h)
  case Nil
  then show ?case by simp
next
  case (Cons item items)
  from Cons.prems obtain h1 where
    step: "(if is_list h item \<or> is_dict h item then rec item h
            else (case item of
                    PStr s \<Rightarrow>
                      if m < int (length s)
                      then (let item' = PStr (squeeze s m 3) in Inr h)
                      else Inr h
                  | _ \<Rightarrow> Inr h)) = Inr h1"
    and rest: "trim_list_loop rec m items h1 = Inr h'"
    by (auto split: sum.splits)
  have "store_kept m h h1"
    using step by (auto split: if_splits pyval.splits intro: rec)
  moreover have "store_kept m h1 h'"
    using rest by (rule Cons.IH)
  ultimately show ?case by (rule store_kept_trans)
qed

lemma trim_kept: "trim depth data m h = Inr h' \<Longrightarrow> store_kept m h h'"
proof (induction depth arbitrary: data h h')
  case 0
  then show ?case by simp
next
  case (Suc depth)
  have rec: "\<And>v h h'. (\<lambda>v. trim depth v m) v h = Inr h' \<Longrightarrow> store_kept m h h'"
    by (rule Suc.IH)
  from Suc.prems show ?case
    by (auto split: if_splits intro: trim_dict_loop_kept [OF rec] trim_list_loop_kept [OF rec])
qed

lemma store_kept_objat:
  "store_kept m h h' \<Longrightarrow> objat h a = Some ob \<Longrightarrow> \<exists>ob'. objat h' a = Some ob' \<and> obj_kept m ob ob'"
  by (auto simp: objat_def store_kept_length store_kept_nth split: if_splits)

lemma store_kept_objat_None: "store_kept m h h' \<Longrightarrow> objat h a = None \<Longrightarrow> objat h' a = None"
  by (auto simp: objat_def store_kept_length split: if_splits)

lemma obj_kept_PyList: "obj_kept m (PyList xs) ob' \<longleftrightarrow> ob' = PyList xs"
  by (cases ob') auto

lemma obj_kept_PyDict:
  "obj_kept m (PyDict kvs) ob' \<longleftrightarrow>
     (\<exists>kvs'. ob' = PyDict kvs' \<and> map fst kvs' = map fst kvs
        \<and> list_all2 (val_kept m) (map snd kvs) (map snd kvs'))"
  by (cases ob') auto

lemma store_kept_is_dict: "store_kept m h h' \<Longrightarrow> is_dict h' v = is_dict h v"
proof (cases v)
  case (PRef a)
  assume k: "store_kept m h h'"
  show ?thesis
  proof (cases "objat h a")
    case None
    with k PRef show ?thesis by (simp add: is_dict_def store_kept_objat_None)
  next
    case (Some ob)
    with k obtain ob' where "objat h' a = Some ob'" "obj_kept m ob ob'"
      by (blast dest: store_kept_objat)
    with Some PRef show ?thesis
      by (cases ob) (auto simp: is_dict_def obj_kept_PyList obj_kept_PyDict)
  qed
qed (simp_all add: is_dict_def)

lemma store_kept_is_list: "store_kept m h h' \<Longrightarrow> is_list h' v = is_list h v"
proof (cases v)
  case (PRef a)
  assume k: "store_kept m h h'"
  show ?thesis
  proof (cases "objat h a")
    case None
    with k PRef show ?thesis by (simp add: is_list_def store_kept_objat_None)
  next
    case (Some ob)
    with k obtain ob' where "objat h' a = Some ob'" "obj_kept m ob ob'"
      by (blast dest: store_kept_objat)
    with Some PRef show ?thesis
      by (cases ob) (auto simp: is_list_def obj_kept_PyList obj_kept_PyDict)
  qed
qed (simp_all add: is_list_def)

lemma store_kept_keys_of: "store_kept m h h' \<Longrightarrow> keys_of h' v = keys_of h v"
proof (cases v)
  case (PRef a)
  assume k: "store_kept m h h'"
  show ?thesis
  proof (cases "objat h a")
    case None
    with k PRef show ?thesis by (simp add: keys_of_def store_kept_objat_None)
  next
    case (Some ob)
    with k obtain ob' where "objat h' a = Some ob'" "obj_kept m ob ob'"
      by (blast dest: store_kept_objat)
    with Some PRef show ?thesis
      by (cases ob) (auto simp: keys_of_def obj_kept_PyList obj_kept_PyDict)
  qed
qed (simp_all add: keys_of_def)

lemma store_kept_items_of: "store_kept m h h' \<Longrightarrow> items_of h' v = items_of h v"
proof (cases v)
  case (PRef a)
  assume k: "store_kept m h h'"
  show ?thesis
  proof (cases "objat h a")
    case None
    with k PRef show ?thesis by (simp add: items_of_def store_kept_objat_None)
  next
    case (Some ob)
    with k obtain ob' where "objat h' a = Some ob'" "obj_kept m ob ob'"
      by (blast dest: store_kept_objat)
    with Some PRef show ?thesis
      by (cases ob) (auto simp: items_of_def obj_kept_PyList obj_kept_PyDict)
  qed
qed (simp_all add: items_of_def)

lemma map_of_rel:
  "map fst kvs' = map fst kvs \<Longrightarrow> list_all2 R (map snd kvs) (map snd kvs') \<Longrightarrow>
   map_of kvs key = Some v \<Longrightarrow> \<exists>v'. map_of kvs' key = Some v' \<and> R v v'"
proof (induction kvs arbitrary: kvs')
  case Nil
  then show ?case by simp
next
  case (Cons kv kvs)
  then obtain kv' rest where kvs': "kvs' = kv' # rest" by (cases kvs') auto
  with Cons show ?case by (cases kv; cases kv') (auto split: if_splits)
qed

lemma store_kept_getitem:
  assumes "store_kept m h h'" and "getitem h data key = Some v"
  shows "\<exists>v'. getitem h' data key = Some v' \<and> val_kept m v v'"
proof -
  from assms(2) obtain a kvs where d: "data = PRef a" and ob: "objat h a = Some (PyDict kvs)"
    and k: "map_of kvs key = Some v"
    by (auto simp: getitem_def split: pyval.splits pyobj.splits option.splits)
  from store_kept_objat [OF assms(1) ob] obtain kvs' where ob': "objat h' a = Some (PyDict kvs')"
    and ks: "map fst kvs' = map fst kvs"
    and vs: "list_all2 (val_kept m) (map snd kvs) (map snd kvs')"
    by (auto simp: obj_kept_PyDict)
  from map_of_rel [OF ks vs k] show ?thesis
    by (simp add: getitem_def d ob')
qed

lemma val_kept_not_str: "val_kept m v v' \<Longrightarrow> (\<forall>s. v \<noteq> PStr s) \<Longrightarrow> v' = v"
  by (auto simp: val_kept_def split: pyval.splits)

lemma fits_not_ref: "(\<forall>a. v \<noteq> PRef a) \<Longrightarrow> fits depth h v = (depth \<noteq> 0)"
  by (cases depth; cases v) auto

lemma val_kept_is_str: "val_kept m v v' \<Longrightarrow> v' \<noteq> v \<Longrightarrow> (\<exists>s. v = PStr s) \<and> (\<exists>s'. v' = PStr s')"
  by (auto simp: val_kept_def split: pyval.splits)

lemma list_all_rel:
  "list_all2 R xs ys \<Longrightarrow> (\<And>x y. R x y \<Longrightarrow> P x = Q y) \<Longrightarrow> list_all P xs = list_all Q ys"
  by (induction rule: list_all2_induct) auto

lemma obj_kept_children: "obj_kept m ob ob' \<Longrightarrow> list_all2 (val_kept m) (children ob) (children ob')"
  by (cases ob; cases ob') (auto simp: children_def list_all2_refl)

lemma fits_kept: "store_kept m h h' \<Longrightarrow> fits depth h' v = fits depth h v"
proof (induction depth arbitrary: v)
  case 0
  then show ?case by simp
next
  case (Suc depth)
  show ?case
  proof (cases v)
    case (PRef a)
    show ?thesis
    proof (cases "objat h a")
      case None
      with Suc.prems PRef show ?thesis by (simp add: store_kept_objat_None)
    next
      case (Some ob)
      with Suc.prems obtain ob' where ob': "objat h' a = Some ob'" and k: "obj_kept m ob ob'"
        by (blast dest: store_kept_objat)
      have "list_all (fits depth h) (children ob) = list_all (fits depth h') (children ob')"
      proof (rule list_all_rel [OF obj_kept_children [OF k]])
        fix x y assume r: "val_kept m x y"
        show "fits depth h x = fits depth h' y"
        proof (cases "y = x")
          case True
          then show ?thesis using Suc.IH [OF Suc.prems] by simp
        next
          case False
          with r have "(\<forall>a. x \<noteq> PRef a) \<and> (\<forall>a. y \<noteq> PRef a)"
            by (auto dest: val_kept_is_str)
          then show ?thesis by (simp add: fits_not_ref)
        qed
      qed
      with PRef Some ob' show ?thesis by simp
    qed
  qed simp_all
qed

lemma val_kept_to_ref: "val_kept m v (PRef a) \<Longrightarrow> v = PRef a"
  by (auto simp: val_kept_def split: pyval.splits)

lemma is_container_ref: "is_list h v \<or> is_dict h v \<Longrightarrow> \<exists>a. v = PRef a"
  by (auto simp: is_list_def is_dict_def split: pyval.splits)

lemma trim_dict_loop_returns:
  assumes rec_ret: "\<And>v h. store_kept m h0 h \<Longrightarrow> fits depth h0 v \<Longrightarrow> \<exists>h'. rec v h = Inr h'"
    and rec_kept: "\<And>v h h'. rec v h = Inr h' \<Longrightarrow> store_kept m h h'"
  shows "store_kept m h0 h \<Longrightarrow>
         \<forall>key\<in>set keys. \<exists>v. getitem h0 data key = Some v \<and> fits depth h0 v \<Longrightarrow>
         \<exists>h'. trim_dict_loop rec data m keys h = Inr h'"
proof (induction keys arbitrary: h)
  case Nil
  then show ?case by simp
next
  case (Cons key keys)
  from Cons.prems(2) obtain v0 where g0: "getitem h0 data key = Some v0" and f0: "fits depth h0 v0"
    by auto
  from store_kept_getitem [OF Cons.prems(1) g0] obtain v where g: "getitem h data key = Some v"
    and k: "val_kept m v0 v" by blast
  have "\<exists>h1. (if is_list h v \<or> is_dict h v then rec v h
                 else (case v of
                         PStr s \<Rightarrow>
                           if m < int (length s)
                           then Inr (setitem h data key (PStr (squeeze s m 3)))
                           else Inr h
                       | _ \<Rightarrow> Inr h)) = Inr h1 \<and> store_kept m h h1"
  proof (cases "is_list h v \<or> is_dict h v")
    case True
    from is_container_ref [OF True] obtain a where "v = PRef a" ..
    with k have "v = v0" by (auto dest: val_kept_to_ref)
    with f0 rec_ret [OF Cons.prems(1)] obtain h1 where "rec v h = Inr h1" by blast
    with True rec_kept show ?thesis by auto
  next
    case False
    with g show ?thesis by (auto split: pyval.splits intro: setitem_kept)
  qed
  then obtain h1 where step: "(if is_list h v \<or> is_dict h v then rec v h
                 else (case v of
                         PStr s \<Rightarrow>
                           if m < int (length s)
                           then Inr (setitem h data key (PStr (squeeze s m 3)))
                           else Inr h
                       | _ \<Rightarrow> Inr h)) = Inr h1" and k1: "store_kept m h h1" by blast
  have "store_kept m h0 h1" using Cons.prems(1) k1 by (rule store_kept_trans)
  from Cons.IH [OF this] Cons.prems(2) obtain h' where "trim_dict_loop rec data m keys h1 = Inr h'"
    by auto
  with g step show ?case by simp
qed

lemma trim_list_loop_returns:
  assumes rec_ret: "\<And>v h. store_kept m h0 h \<Longrightarrow> fits depth h0 v \<Longrightarrow> \<exists>h'. rec v h = Inr h'"
    and rec_kept: "\<And>v h h'. rec v h = Inr h' \<Longrightarrow> store_kept m h h'"
  shows "store_kept m h0 h \<Longrightarrow> list_all (fits depth h0) items \<Longrightarrow>
         \<exists>h'. trim_list_loop rec m items h = Inr h'"
proof (induction items arbitrary: h)
  case Nil
  then show ?case by simp
next
  case (Cons item items)
  have "\<exists>h1. (if is_list h item \<or> is_dict h item then rec item h
            else (case item of
                    PStr s \<Rightarrow>
                      if m < int (length s)
                      then (let item' = PStr (squeeze s m 3) in Inr h)
                      else Inr h
                  | _ \<Rightarrow> Inr h)) = Inr h1 \<and> store_kept m h h1"
  proof (cases "is_list h item \<or> is_dict h item")
    case True
    from Cons.prems rec_ret [OF Cons.prems(1)] obtain h1 where "rec item h = Inr h1" by auto
    with True rec_kept show ?thesis by auto
  next
    case False
    then show ?thesis by (auto split: pyval.splits)
  qed
  then obtain h1 where step: "(if is_list h item \<or> is_dict h item then rec item h
            else (case item of
                    PStr s \<Rightarrow>
                      if m < int (length s)
                      then (let item' = PStr (squeeze s m 3) in Inr h)
                      else Inr h
                  | _ \<Rightarrow> Inr h)) = Inr h1" and k1: "store_kept m h h1" by blast
  have "store_kept m h0 h1" using Cons.prems(1) k1 by (rule store_kept_trans)
  from Cons.IH [OF this] Cons.prems(2) obtain h' where "trim_list_loop rec m items h1 = Inr h'"
    by auto
  with step show ?case by simp
qed

lemma fits_dict_keys:
  assumes "is_dict h data" and "fits (Suc depth) h data"
  shows "\<forall>key\<in>set (keys_of h data). \<exists>v. getitem h data key = Some v \<and> fits depth h v"
proof -
  from assms(1) obtain a kvs where d: "data = PRef a" and ob: "objat h a = Some (PyDict kvs)"
    by (auto simp: is_dict_def split: pyval.splits option.splits pyobj.splits)
  from assms(2) have all: "list_all (fits depth h) (map snd kvs)"
    by (simp add: d ob children_def)
  show ?thesis
  proof
    fix key assume "key \<in> set (keys_of h data)"
    then have "key \<in> fst ` set kvs" by (simp add: keys_of_def d ob)
    then obtain v where m: "map_of kvs key = Some v"
      by (metis domD dom_map_of_conv_image_fst)
    then have "v \<in> snd ` set kvs" by (metis map_of_SomeD snd_conv image_iff)
    with all have "fits depth h v" by (auto simp: list_all_iff)
    with m show "\<exists>v. getitem h data key = Some v \<and> fits depth h v"
      by (simp add: getitem_def d ob)
  qed
qed

lemma fits_list_items:
  assumes "is_list h data" and "fits (Suc depth) h data"
  shows "list_all (fits depth h) (items_of h data)"
  using assms
  by (auto simp: is_list_def items_of_def children_def split: pyval.splits option.splits pyobj.splits)

lemma trim_returns: "fits depth h data \<Longrightarrow> \<exists>h'. trim depth data m h = Inr h'"
proof (induction depth arbitrary: data h)
  case 0
  then show ?case by simp
next
  case (Suc depth)
  have rec_ret: "\<And>v h1. store_kept m h h1 \<Longrightarrow> fits depth h v \<Longrightarrow> \<exists>h'. trim depth v m h1 = Inr h'"
    using Suc.IH by (simp add: fits_kept)
  have rec_kept: "\<And>v h h'. trim depth v m h = Inr h' \<Longrightarrow> store_kept m h h'"
    by (rule trim_kept)
  show ?case
  proof (cases "is_dict h data")
    case True
    from trim_dict_loop_returns [where rec = "\<lambda>v. trim depth v m", OF rec_ret rec_kept store_kept_refl
        fits_dict_keys [OF True Suc.prems]]
    show ?thesis using True by simp
  next
    case False
    show ?thesis
    proof (cases "is_list h data")
      case True
      from trim_list_loop_returns [where rec = "\<lambda>v. trim depth v m", OF rec_ret rec_kept store_kept_refl
          fits_list_items [OF True Suc.prems]]
      show ?thesis using True False by simp
    next
      case False
      with \<open>\<not> is_dict h data\<close> show ?thesis by simp
    qed
  qed
qed

(*HELPERS*)
section \<open>The claims\<close>

subsection \<open>C1: format_header\<close>

text \<open>
  C1 says that \<^verbatim>\<open>format_header(h, "info")\<close> returns \<^verbatim>\<open>">>> "\<close> and the title-cased
  header, that the levels \<^verbatim>\<open>"debug"\<close> and \<^verbatim>\<open>"trace"\<close> return a padded header, and that
  every other level fails with an error that names the level. The code compares
  \<^verbatim>\<open>level.upper()\<close> with the lower-case words, which an upper-cased string never
  equals: whatever the level, \<^verbatim>\<open>format_header\<close> raises the error that names it, also
  for \<^verbatim>\<open>"info"\<close>, \<^verbatim>\<open>"debug"\<close> and \<^verbatim>\<open>"trace"\<close>.
\<close>

theorem format_header_always_raises:
  "format_header black_on_cyan header level =
     Inl (RuntimeError (str ''Invalid header level \"'' @ level @ str ''\"''))"
  by (simp add: format_header_def upper_neq_levels)

subsection \<open>C4: squeeze\<close>

text \<open>
  C4, as stated, ranges over all integers \<open>maxlen\<close> and \<open>tail\<close> with
  \<open>maxlen - tail - 2 \<ge> 0\<close>. A negative \<open>tail\<close> meets that condition, and then
  \<^verbatim>\<open>s[-tail:]\<close> is the string without its first \<open>-tail\<close> characters:
  \<^verbatim>\<open>squeeze("abcdefghij", 5, -1)\<close> is \<^verbatim>\<open>"abcd..bcdefghij"\<close>, of length 15 and not
  \<open>maxlen - tail = 6\<close>.
\<close>

theorem squeeze_negative_tail_counterexample:
  "0 \<le> (5::int) - (- 1) - 2
   \<and> squeeze (str ''abcdefghij'') 5 (- 1) = str ''abcd..bcdefghij''
   \<and> int (length (squeeze (str ''abcdefghij'') 5 (- 1)))
        \<noteq> (if (0::int) < - 1 then 5 else 5 - (- 1))"
  by (simp add: squeeze_def slice_to_def slice_from_def slice_bound_def str_def)

text \<open>
  C4 (amended with \<open>tail \<ge> 0\<close>): for every string \<open>s\<close> and all integers \<open>maxlen\<close>,
  \<open>tail\<close> with \<open>tail \<ge> 0\<close> and \<open>maxlen - tail - 2 \<ge> 0\<close>, \<open>squeeze s maxlen tail\<close> is
  \<open>s\<close> when \<open>s\<close> is at most \<open>maxlen\<close> long; otherwise it is the first
  \<open>maxlen - tail - 2\<close> characters of \<open>s\<close>, then \<^verbatim>\<open>".."\<close>, then the last \<open>tail\<close>
  characters of \<open>s\<close> (nothing when \<open>tail\<close> is 0), and its length is \<open>maxlen\<close> when
  \<open>tail > 0\<close>, else \<open>maxlen - tail\<close>.
\<close>

theorem squeeze_contract:
  "0 \<le> tail \<Longrightarrow> 0 \<le> maxlen - tail - 2 \<Longrightarrow>
     squeeze s maxlen tail =
       (if int (length s) \<le> maxlen then s
        else take (nat (maxlen - tail - 2)) s @ str ''..''
               @ (if tail = 0 then [] else drop (length s - nat tail) s))
     \<and> (maxlen < int (length s) \<longrightarrow>
          int (length (squeeze s maxlen tail)) = (if 0 < tail then maxlen else maxlen - tail))"
  by (auto simp: squeeze_def slice_to_def slice_from_def slice_bound_def str_def nat_diff_distrib)

theorem squeeze_contract_witness:
  "(0::int) \<le> 2 \<and> (0::int) \<le> 8 - 2 - 2
   \<and> squeeze (str ''abcdefghij'') 8 2 = str ''abcd..ij''
   \<and> int (length (squeeze (str ''abcdefghij'') 8 2)) = 8
   \<and> squeeze (str ''abcdefghij'') 6 0 = str ''abcd..''
   \<and> int (length (squeeze (str ''abcdefghij'') 6 0)) = 6
   \<and> squeeze (str ''abc'') 6 0 = str ''abc''"
proof -
  have t2: "(0::int) \<le> 2" and m2: "(0::int) \<le> 8 - 2 - 2" by simp_all
  have t0: "(0::int) \<le> 0" and m0: "(0::int) \<le> 6 - 0 - 2" by simp_all
  show ?thesis
    using squeeze_contract [OF t2 m2, of "str ''abcdefghij''"]
      squeeze_contract [OF t0 m0, of "str ''abcdefghij''"]
      squeeze_contract [OF t0 m0, of "str ''abc''"]
    by (simp add: str_def)
qed

subsection \<open>C5: make_header\<close>

text \<open>
  C5: for every header \<open>h\<close> and every level whose \<^verbatim>\<open>LogLevel\<close> normalization is none of
  \<^verbatim>\<open>"info"\<close>, \<^verbatim>\<open>"debug"\<close>, \<^verbatim>\<open>"trace"\<close>, \<open>make_header h level\<close> returns \<open>h\<close> unchanged
  and does not fail, whereas \<open>format_header\<close> fails at that level.
\<close>

theorem make_header_unrecognized:
  "loglevel level = Inr level' \<Longrightarrow>
   level' \<noteq> str ''info'' \<Longrightarrow> level' \<noteq> str ''debug'' \<Longrightarrow> level' \<noteq> str ''trace'' \<Longrightarrow>
     make_header black_on_cyan loglevel header level = Inr header
     \<and> (\<exists>e. format_header black_on_cyan header level = Inl e)"
  by (simp add: make_header_def format_header_def upper_neq_levels)

theorem make_header_unrecognized_witness:
  "make_header (\<lambda>s. s) Inr (str ''a header'') (str ''bogus'') = Inr (str ''a header'')
   \<and> (\<exists>e. format_header (\<lambda>s. s) (str ''a header'') (str ''bogus'') = Inl e)"
proof -
  have i: "str ''bogus'' \<noteq> str ''info''" and d: "str ''bogus'' \<noteq> str ''debug''"
    and t: "str ''bogus'' \<noteq> str ''trace''"
    by (simp_all add: str_def)
  show ?thesis
    using make_header_unrecognized
      [where loglevel = Inr and level = "str ''bogus''" and level' = "str ''bogus''"
         and black_on_cyan = "\<lambda>s. s" and header = "str ''a header''", OF _ i d t]
    by simp
qed

subsection \<open>C8: override\<close>

text \<open>
  C8: for every argument list, \<open>override\<close> returns the last argument that is not
  \<^verbatim>\<open>None\<close> when there is one, and \<^verbatim>\<open>None\<close> when every argument is \<^verbatim>\<open>None\<close>.
\<close>

theorem override_last_not_none:
  "((\<forall>x\<in>set args. x = PNone) \<longrightarrow> override args = PNone)
   \<and> (\<forall>pre x post. args = pre @ x # post \<and> x \<noteq> PNone \<and> (\<forall>y\<in>set post. y = PNone)
        \<longrightarrow> override args = x)"
  by (auto simp: override_def override_loop_all_none override_loop_skip)

theorem override_last_not_none_witness:
  "override [PInt 1, PInt 2, PNone] = PInt 2
   \<and> override [PNone, PInt 5, PNone] = PInt 5
   \<and> override [PNone, PNone] = PNone"
proof -
  have a: "override [PInt 1, PInt 2, PNone] = PInt 2"
    using override_last_not_none [of "[PInt 1, PInt 2, PNone]"]
    by (elim conjE allE [of _ "[PInt 1]"] allE [of _ "PInt 2"] allE [of _ "[PNone]"]) simp
  have b: "override [PNone, PInt 5, PNone] = PInt 5"
    using override_last_not_none [of "[PNone, PInt 5, PNone]"]
    by (elim conjE allE [of _ "[PNone]"] allE [of _ "PInt 5"] allE [of _ "[PNone]"]) simp
  have c: "override [PNone, PNone] = PNone"
    using override_last_not_none [of "[PNone, PNone]"] by simp
  from a b c show ?thesis by simp
qed

end
